theory Spec2Isabelle
  imports Complex_Main "HOL-Library.Log_Nat"
begin

section \<open>Python values used by the tokenizers\<close>

text \<open>
  A Python \<open>str\<close> is a sequence of code points below \<open>0x110000\<close> (lone surrogates
  included); a \<open>bytes\<close> object is a sequence of integers in \<open>range(256)\<close>; token ids
  are Python integers.  Every exception the modelled code can raise is a constructor of
  \<open>error\<close>, named as Python names it.
\<close>

type_synonym byte = nat
type_synonym pystr = "nat list"

datatype error =
    UnicodeEncodeError
  | UnicodeDecodeError
  | ValueError
  | OverflowError
  | TypeError
  | ZeroDivisionError
  | IndexError
  | OSError

definition is_str :: "pystr \<Rightarrow> bool" where
  "is_str s = list_all (\<lambda>c. c < 0x110000) s"

definition is_scalar_value :: "nat \<Rightarrow> bool" where
  "is_scalar_value c = (c < 0xD800 \<or> (0xE000 \<le> c \<and> c < 0x110000))"

definition valid_unicode :: "pystr \<Rightarrow> bool" where
  "valid_unicode s = list_all is_scalar_value s"

subsection \<open>\<open>str.encode("utf-8")\<close> and \<open>bytes.decode("utf-8")\<close>\<close>

text \<open>
  The strict UTF-8 codec of Python: a surrogate code point cannot be encoded
  (\<open>UnicodeEncodeError\<close>); decoding accepts exactly the well-formed byte sequences
  (no overlong forms, no surrogates, nothing above \<open>0x10FFFF\<close>) and raises
  \<open>UnicodeDecodeError\<close> otherwise.  The last branch of \<open>utf8_encode_char\<close> lies outside
  the range of a \<open>str\<close>.
\<close>

definition utf8_encode_char :: "nat \<Rightarrow> error + byte list" where
  "utf8_encode_char c =
     (if c < 0x80 then Inr [c]
      else if c < 0x800 then Inr [0xC0 + c div 0x40, 0x80 + c mod 0x40]
      else if 0xD800 \<le> c \<and> c \<le> 0xDFFF then Inl UnicodeEncodeError
      else if c < 0x10000 then
        Inr [0xE0 + c div 0x1000, 0x80 + c div 0x40 mod 0x40, 0x80 + c mod 0x40]
      else if c < 0x110000 then
        Inr [0xF0 + c div 0x40000, 0x80 + c div 0x1000 mod 0x40,
             0x80 + c div 0x40 mod 0x40, 0x80 + c mod 0x40]
      else Inl UnicodeEncodeError)"

fun str_encode_utf8 :: "pystr \<Rightarrow> error + byte list" where
  "str_encode_utf8 [] = Inr []"
| "str_encode_utf8 (c # cs) =
     (case utf8_encode_char c of
        Inl e \<Rightarrow> Inl e
      | Inr bs \<Rightarrow> map_sum id ((@) bs) (str_encode_utf8 cs))"

definition is_cont :: "byte \<Rightarrow> bool" where
  "is_cont b = (0x80 \<le> b \<and> b \<le> 0xBF)"

definition second_ok :: "byte \<Rightarrow> byte \<Rightarrow> bool" where
  "second_ok b0 b1 =
     (if b0 = 0xE0 then 0xA0 \<le> b1 \<and> b1 \<le> 0xBF
      else if b0 = 0xED then 0x80 \<le> b1 \<and> b1 \<le> 0x9F
      else if b0 = 0xF0 then 0x90 \<le> b1 \<and> b1 \<le> 0xBF
      else if b0 = 0xF4 then 0x80 \<le> b1 \<and> b1 \<le> 0x8F
      else is_cont b1)"

fun bytes_decode_utf8 :: "byte list \<Rightarrow> error + pystr" where
  "bytes_decode_utf8 [] = Inr []"
| "bytes_decode_utf8 (b0 # bs) =
     (if b0 < 0x80 then map_sum id ((#) b0) (bytes_decode_utf8 bs)
      else if 0xC2 \<le> b0 \<and> b0 \<le> 0xDF then
        (case bs of
           b1 # r \<Rightarrow>
             if is_cont b1
             then map_sum id ((#) ((b0 - 0xC0) * 0x40 + (b1 - 0x80))) (bytes_decode_utf8 r)
             else Inl UnicodeDecodeError
         | _ \<Rightarrow> Inl UnicodeDecodeError)
      else if 0xE0 \<le> b0 \<and> b0 \<le> 0xEF then
        (case bs of
           b1 # b2 # r \<Rightarrow>
             if second_ok b0 b1 \<and> is_cont b2
             then map_sum id
                    ((#) ((b0 - 0xE0) * 0x1000 + (b1 - 0x80) * 0x40 + (b2 - 0x80)))
                    (bytes_decode_utf8 r)
             else Inl UnicodeDecodeError
         | _ \<Rightarrow> Inl UnicodeDecodeError)
      else if 0xF0 \<le> b0 \<and> b0 \<le> 0xF4 then
        (case bs of
           b1 # b2 # b3 # r \<Rightarrow>
             if second_ok b0 b1 \<and> is_cont b2 \<and> is_cont b3
             then map_sum id
                    ((#) ((b0 - 0xF0) * 0x40000 + (b1 - 0x80) * 0x1000
                          + (b2 - 0x80) * 0x40 + (b3 - 0x80)))
                    (bytes_decode_utf8 r)
             else Inl UnicodeDecodeError
         | _ \<Rightarrow> Inl UnicodeDecodeError)
      else Inl UnicodeDecodeError)"

subsection \<open>\<open>chr\<close>, \<open>bytes(list)\<close> and \<open>b"".join\<close>\<close>

text \<open>
  \<open>chr(i)\<close> raises \<open>OverflowError\<close> when \<open>i\<close> does not fit a C int and \<open>ValueError\<close>
  when it is outside \<open>range(0x110000)\<close>.  \<open>bytes(indices)\<close> raises \<open>ValueError\<close> for an
  element outside \<open>range(256)\<close>.  \<open>b"".join\<close> raises \<open>TypeError\<close> for an item that is
  not bytes; here the only such item is the \<open>None\<close> that \<open>dict.get\<close> returns for a
  missing key.
\<close>

definition py_chr :: "int \<Rightarrow> error + nat" where
  "py_chr i =
     (if i < - (2 ^ 31) \<or> 2 ^ 31 \<le> i then Inl OverflowError
      else if i < 0 \<or> 0x110000 \<le> i then Inl ValueError
      else Inr (nat i))"

fun str_join_chr :: "int list \<Rightarrow> error + pystr" where
  "str_join_chr [] = Inr []"
| "str_join_chr (i # is) =
     (case py_chr i of
        Inl e \<Rightarrow> Inl e
      | Inr c \<Rightarrow> map_sum id ((#) c) (str_join_chr is))"

definition py_bytes :: "int list \<Rightarrow> error + byte list" where
  "py_bytes indices =
     (if list_all (\<lambda>i. 0 \<le> i \<and> i < 256) indices then Inr (map nat indices)
      else Inl ValueError)"

fun bytes_join :: "byte list option list \<Rightarrow> error + byte list" where
  "bytes_join [] = Inr []"
| "bytes_join (None # rest) = Inl TypeError"
| "bytes_join (Some b # rest) = map_sum id ((@) b) (bytes_join rest)"

section \<open>tokenizer.py\<close>

record BPETokenizerParams =
  vocab :: "int \<rightharpoonup> byte list"
  merges :: "((int \<times> int) \<times> int) list"

subsection \<open>CharacterTokenizer\<close>

definition CharacterTokenizer_encode :: "pystr \<Rightarrow> int list" where
  "CharacterTokenizer_encode string = map int string"

definition CharacterTokenizer_decode :: "int list \<Rightarrow> error + pystr" where
  "CharacterTokenizer_decode indices = str_join_chr indices"

subsection \<open>ByteTokenizer\<close>

definition ByteTokenizer_encode :: "pystr \<Rightarrow> error + int list" where
  "ByteTokenizer_encode string =
     (case str_encode_utf8 string of
        Inl e \<Rightarrow> Inl e
      | Inr string_bytes \<Rightarrow> Inr (map int string_bytes))"

definition ByteTokenizer_decode :: "int list \<Rightarrow> error + pystr" where
  "ByteTokenizer_decode indices =
     (case py_bytes indices of
        Inl e \<Rightarrow> Inl e
      | Inr string_bytes \<Rightarrow> bytes_decode_utf8 string_bytes)"

subsection \<open>merge\<close>

text \<open>
  The \<open>while\<close> loop of \<open>merge\<close>, with its index \<open>i\<close> and the list \<open>new_indices\<close> it
  appends to.
\<close>

function merge_loop :: "int list \<Rightarrow> int \<times> int \<Rightarrow> int \<Rightarrow> nat \<Rightarrow> int list \<Rightarrow> int list" where
  "merge_loop indices pair new_index i new_indices =
     (if i < length indices then
        (if i + 1 < length indices \<and> indices ! i = fst pair \<and> indices ! (i + 1) = snd pair
         then merge_loop indices pair new_index (i + 2) (new_indices @ [new_index])
         else merge_loop indices pair new_index (i + 1) (new_indices @ [indices ! i]))
      else new_indices)"
  by pat_completeness auto
termination
  by (relation "measure (\<lambda>(indices, pair, new_index, i, new_indices). length indices - i)") auto

declare merge_loop.simps [simp del]

definition merge :: "int list \<Rightarrow> int \<times> int \<Rightarrow> int \<Rightarrow> int list" where
  "merge indices pair new_index = merge_loop indices pair new_index 0 []"

text \<open>The number of times the loop of \<open>merge\<close> takes its first branch, from index \<open>i\<close> on.\<close>

function merge_matches :: "int list \<Rightarrow> int \<times> int \<Rightarrow> nat \<Rightarrow> nat" where
  "merge_matches indices pair i =
     (if i < length indices then
        (if i + 1 < length indices \<and> indices ! i = fst pair \<and> indices ! (i + 1) = snd pair
         then Suc (merge_matches indices pair (i + 2))
         else merge_matches indices pair (i + 1))
      else 0)"
  by pat_completeness auto
termination
  by (relation "measure (\<lambda>(indices, pair, i). length indices - i)") auto

declare merge_matches.simps [simp del]

text \<open>
  The replacement pass as the specification words it: scanning left to right, two
  adjacent elements equal to the rule's pair are consumed and replaced by the new id,
  and the scan resumes after both; any other element is kept and the scan moves on by
  one.
\<close>

fun replacement_pass :: "int list \<Rightarrow> int \<times> int \<Rightarrow> int \<Rightarrow> int list" where
  "replacement_pass (x # y # rest) pair new_id =
     (if x = fst pair \<and> y = snd pair then new_id # replacement_pass rest pair new_id
      else x # replacement_pass (y # rest) pair new_id)"
| "replacement_pass xs pair new_id = xs"

subsection \<open>BytePairEncodingTokenizer\<close>

definition BPE_encode :: "BPETokenizerParams \<Rightarrow> pystr \<Rightarrow> error + int list" where
  "BPE_encode params string =
     (case str_encode_utf8 string of
        Inl e \<Rightarrow> Inl e
      | Inr string_bytes \<Rightarrow>
          Inr (foldl (\<lambda>indices (pair, new_index). merge indices pair new_index)
                 (map int string_bytes) (merges params)))"

definition BPE_decode :: "BPETokenizerParams \<Rightarrow> int list \<Rightarrow> error + pystr" where
  "BPE_decode params indices =
     (let bytes_list = map (vocab params) indices in
      case bytes_join bytes_list of
        Inl e \<Rightarrow> Inl e
      | Inr joined \<Rightarrow> bytes_decode_utf8 joined)"

subsection \<open>get_compression_ratio\<close>





section \<open>pretokenization_example.py\<close>

subsection \<open>The byte source\<close>

text \<open>
  A \<open>BinaryIO\<close> opened for reading: its bytes and the current position.  \<open>seek\<close> to a
  negative offset raises \<open>OSError\<close>; \<open>read(n)\<close> returns at most \<open>n\<close> bytes from the
  current position, fewer only at the end of the file, and advances the position by the
  number of bytes returned.
\<close>

record binary_file =
  contents :: "byte list"
  pos :: nat

definition file_seek :: "binary_file \<Rightarrow> int \<Rightarrow> error + binary_file" where
  "file_seek file offset =
     (if offset < 0 then Inl OSError else Inr (file\<lparr>pos := nat offset\<rparr>))"

definition file_read :: "binary_file \<Rightarrow> nat \<Rightarrow> byte list \<times> binary_file" where
  "file_read file n =
     (let chunk = take n (drop (pos file) (contents file))
      in (chunk, file\<lparr>pos := pos file + length chunk\<rparr>))"

text \<open>
  \<open>bytes.find(sub)\<close>: the lowest index at which \<open>sub\<close> occurs, or \<open>-1\<close>.  The third
  argument of \<open>find_from\<close> is the index of the head of the remaining bytes.
\<close>

fun find_from :: "byte list \<Rightarrow> byte list \<Rightarrow> int \<Rightarrow> int" where
  "find_from [] sub i = (if sub = [] then i else - 1)"
| "find_from (b # bs) sub i =
     (if take (length sub) (b # bs) = sub then i else find_from bs sub (i + 1))"

definition bytes_find :: "byte list \<Rightarrow> byte list \<Rightarrow> int" where
  "bytes_find haystack sub = find_from haystack sub 0"

subsection \<open>find_chunk_boundaries\<close>

definition mini_chunk_size :: nat where
  "mini_chunk_size = 4096"

text \<open>The \<open>while True\<close> loop: the boundary it settles on, and the file as it leaves it.\<close>

function read_ahead :: "binary_file \<Rightarrow> byte list \<Rightarrow> int \<Rightarrow> int \<Rightarrow> int \<times> binary_file" where
  "read_ahead file split_special_token file_size initial_position =
     (case file_read file mini_chunk_size of
        (mini_chunk, file') \<Rightarrow>
          if mini_chunk = [] then (file_size, file')
          else
            (let found_at = bytes_find mini_chunk split_special_token in
             if found_at \<noteq> - 1 then (initial_position + found_at, file')
             else read_ahead file' split_special_token file_size
                    (initial_position + int mini_chunk_size)))"
  by pat_completeness auto
termination
  by (relation "measure (\<lambda>(file, split_special_token, file_size, initial_position).
                           length (contents file) - pos file)")
     (auto simp: file_read_def Let_def)

declare read_ahead.simps [simp del]

text \<open>
  The \<open>for bi in range(1, len(chunk_boundaries) - 1)\<close> loop over the indices still to
  visit; every such index is inside the list.
\<close>

fun snap_boundaries ::
  "binary_file \<Rightarrow> byte list \<Rightarrow> int \<Rightarrow> int list \<Rightarrow> nat list \<Rightarrow> error + int list" where
  "snap_boundaries file split_special_token file_size chunk_boundaries [] =
     Inr chunk_boundaries"
| "snap_boundaries file split_special_token file_size chunk_boundaries (bi # bis) =
     (let initial_position = chunk_boundaries ! bi in
      case file_seek file initial_position of
        Inl e \<Rightarrow> Inl e
      | Inr file1 \<Rightarrow>
          (case read_ahead file1 split_special_token file_size initial_position of
             (boundary, file2) \<Rightarrow>
               snap_boundaries file2 split_special_token file_size
                 (chunk_boundaries[bi := boundary]) bis))"

text \<open>
  The body of \<open>find_chunk_boundaries\<close> up to its \<open>return\<close>: \<open>L // 0\<close> raises
  \<open>ZeroDivisionError\<close>, and \<open>chunk_boundaries[-1] = file_size\<close> raises \<open>IndexError\<close>
  on the empty list that \<open>range(desired_num_chunks + 1)\<close> gives for a negative count.
  The delimiter has the type of a byte sequence, so the \<open>isinstance\<close> assertion holds.
  The file size is read by seeking to the end, and the position is then put back to 0.
\<close>

definition snapped_boundaries :: "binary_file \<Rightarrow> int \<Rightarrow> byte list \<Rightarrow> error + int list" where
  "snapped_boundaries file desired_num_chunks split_special_token =
     (let file_size = int (length (contents file));
          file = file\<lparr>pos := 0\<rparr>
      in
      if desired_num_chunks = 0 then Inl ZeroDivisionError
      else
        (let chunk_size = file_size div desired_num_chunks;
             chunk_boundaries = map (\<lambda>i. i * chunk_size) [0..desired_num_chunks]
         in
         if chunk_boundaries = [] then Inl IndexError
         else
           (let chunk_boundaries = chunk_boundaries[length chunk_boundaries - 1 := file_size]
            in snap_boundaries file split_special_token file_size chunk_boundaries
                 [1..<length chunk_boundaries - 1])))"

definition find_chunk_boundaries :: "binary_file \<Rightarrow> int \<Rightarrow> byte list \<Rightarrow> error + int list" where
  "find_chunk_boundaries file desired_num_chunks split_special_token =
     (case snapped_boundaries file desired_num_chunks split_special_token of
        Inl e \<Rightarrow> Inl e
      | Inr chunk_boundaries \<Rightarrow> Inr (sorted_list_of_set (set chunk_boundaries)))"

subsection \<open>Notions the claims about chunk boundaries are stated with\<close>

text \<open>
  \<open>delimiter_at data sub p\<close>: an occurrence of \<open>sub\<close> in \<open>data\<close> starts at offset \<open>p\<close>.
  \<open>naive_guess L k i\<close>: the \<open>i\<close>-th uniformly spaced guess.  \<open>inside_window g n p\<close>:
  \<open>n\<close> bytes starting at offset \<open>p\<close> lie inside one of the look-ahead windows
  \<open>[g + 4096 j, g + 4096 (j + 1))\<close> read from the guess \<open>g\<close> on.
\<close>

definition delimiter_at :: "byte list \<Rightarrow> byte list \<Rightarrow> nat \<Rightarrow> bool" where
  "delimiter_at data sub p =
     (p + length sub \<le> length data \<and> take (length sub) (drop p data) = sub)"

definition naive_guess :: "nat \<Rightarrow> int \<Rightarrow> int \<Rightarrow> int" where
  "naive_guess L k i = i * (int L div k)"

definition inside_window :: "nat \<Rightarrow> nat \<Rightarrow> nat \<Rightarrow> bool" where
  "inside_window g n p = (g \<le> p \<and> (p - g) mod mini_chunk_size + n \<le> mini_chunk_size)"

text \<open>
  \<open>snap data sub g\<close>: the boundary the read-ahead loop settles on when it starts at the
  guess \<open>g\<close> in a source holding \<open>data\<close>.
\<close>

definition snap :: "byte list \<Rightarrow> byte list \<Rightarrow> int \<Rightarrow> int" where
  "snap data split_special_token guess =
     fst (read_ahead \<lparr>contents = data, pos = nat guess\<rparr> split_special_token
            (int (length data)) guess)"

section \<open>The merge pass\<close>

lemma merge_loop_replacement_pass:
  "merge_loop indices pair new_index i new_indices =
     new_indices @ replacement_pass (drop i indices) pair new_index"
proof (induction indices pair new_index i new_indices rule: merge_loop.induct)
  case (1 indices pair new_index i new_indices)
  show ?case
  proof (cases "i < length indices")
    case False
    then show ?thesis by (subst merge_loop.simps) simp
  next
    case in_range: True
    show ?thesis
    proof (cases "i + 1 < length indices")
      case False
      with in_range have d: "drop i indices = [indices ! i]"
        by (metis Cons_nth_drop_Suc Suc_eq_plus1 drop_all not_less)
      from False in_range have "drop (i + 1) indices = []" by simp
      with False in_range d "1.IH"(2) show ?thesis
        by (subst merge_loop.simps) simp
    next
      case True
      with in_range have d: "drop i indices = indices ! i # indices ! (i + 1) # drop (i + 2) indices"
        by (metis Cons_nth_drop_Suc Suc_eq_plus1 add_2_eq_Suc')
      from True have d1: "drop (i + 1) indices = indices ! (i + 1) # drop (i + 2) indices"
        by (metis Cons_nth_drop_Suc Suc_eq_plus1 add_2_eq_Suc')
      show ?thesis
      proof (cases "indices ! i = fst pair \<and> indices ! (i + 1) = snd pair")
        case m: True
        with in_range True "1.IH"(1) d show ?thesis
          by (subst merge_loop.simps) simp
      next
        case m: False
        with in_range True "1.IH"(2) d d1 show ?thesis
          by (subst merge_loop.simps) auto
      qed
    qed
  qed
qed

lemma merge_matches_length:
  "length (merge_loop indices pair new_index i new_indices) + merge_matches indices pair i =
     length new_indices + (length indices - i)"
proof (induction indices pair new_index i new_indices rule: merge_loop.induct)
  case (1 indices pair new_index i new_indices)
  show ?case
  proof (cases "i < length indices")
    case False
    then show ?thesis by (subst merge_loop.simps, subst merge_matches.simps) simp
  next
    case in_range: True
    show ?thesis
    proof (cases "i + 1 < length indices \<and> indices ! i = fst pair \<and> indices ! (i + 1) = snd pair")
      case True
      with in_range "1.IH"(1) show ?thesis
        by (subst merge_loop.simps, subst merge_matches.simps) auto
    next
      case False
      with in_range "1.IH"(2) show ?thesis
        by (subst merge_loop.simps, subst merge_matches.simps) auto
    qed
  qed
qed

lemma merge_replacement_pass:
  "merge indices pair new_index = replacement_pass indices pair new_index"
  by (simp add: merge_def merge_loop_replacement_pass)

lemma merge_length_le: "length (merge indices pair new_index) \<le> length indices"
  using merge_matches_length[of indices pair new_index 0 "[]"]
  by (simp add: merge_def)

lemma foldl_merge_replacement_pass:
  "foldl (\<lambda>indices (pair, new_index). merge indices pair new_index) xs ms =
   foldl (\<lambda>indices (pair, new_id). replacement_pass indices pair new_id) xs ms"
  by (induction ms arbitrary: xs) (auto simp: merge_replacement_pass)

lemma foldl_merge_length_le:
  "length (foldl (\<lambda>indices (pair, new_index). merge indices pair new_index) xs ms)
     \<le> length xs"
proof (induction ms arbitrary: xs)
  case Nil
  then show ?case by simp
next
  case (Cons m ms)
  obtain pair new_index where m: "m = (pair, new_index)" by (cases m)
  have "length (foldl (\<lambda>indices (pair, new_index). merge indices pair new_index)
                  (merge xs pair new_index) ms) \<le> length (merge xs pair new_index)"
    by (rule Cons.IH)
  also have "\<dots> \<le> length xs" by (rule merge_length_le)
  finally show ?case by (simp add: m)
qed

section \<open>The UTF-8 codec\<close>

lemma div4096: "(c::nat) div 4096 = c div 64 div 64"
  by (simp add: div_mult2_eq[symmetric])

lemma div262144: "(c::nat) div 262144 = c div 64 div 64 div 64"
  by (simp add: div_mult2_eq[symmetric])

lemma decode2:
  assumes "2 \<le> a" "a \<le> 31" "d \<le> 63"
  shows "bytes_decode_utf8 ([192 + a, 128 + d] @ rest) =
           map_sum id ((#) (a * 64 + d)) (bytes_decode_utf8 rest)"
  using assms by (simp add: is_cont_def)

lemma decode3:
  assumes "a \<le> 15" "b \<le> 63" "d \<le> 63" "a = 0 \<Longrightarrow> 32 \<le> b" "a = 13 \<Longrightarrow> b \<le> 31"
  shows "bytes_decode_utf8 ([224 + a, 128 + b, 128 + d] @ rest) =
           map_sum id ((#) (a * 4096 + b * 64 + d)) (bytes_decode_utf8 rest)"
  using assms by (auto simp add: is_cont_def second_ok_def)

lemma decode4:
  assumes "e \<le> 4" "a \<le> 63" "b \<le> 63" "d \<le> 63" "e = 0 \<Longrightarrow> 16 \<le> a" "e = 4 \<Longrightarrow> a \<le> 15"
  shows "bytes_decode_utf8 ([240 + e, 128 + a, 128 + b, 128 + d] @ rest) =
           map_sum id ((#) (e * 262144 + a * 4096 + b * 64 + d)) (bytes_decode_utf8 rest)"
  using assms by (auto simp add: is_cont_def second_ok_def)

lemma utf8_roundtrip_char:
  assumes "is_scalar_value c"
  shows "\<exists>bs. utf8_encode_char c = Inr bs \<and>
           bytes_decode_utf8 (bs @ rest) = map_sum id ((#) c) (bytes_decode_utf8 rest)"
proof -
  define d where "d = c mod 64"
  define q where "q = c div 64"
  define b where "b = q mod 64"
  define a where "a = q div 64"
  define f where "f = a mod 64"
  define e where "e = a div 64"
  have c: "c = q * 64 + d" and d: "d \<le> 63" by (simp_all add: d_def q_def)
  have q: "q = a * 64 + b" and b: "b \<le> 63" by (simp_all add: a_def b_def)
  have a: "a = e * 64 + f" and f: "f \<le> 63" by (simp_all add: e_def f_def)
  have c3: "c = a * 4096 + b * 64 + d" using c q by simp
  have c4: "c = e * 262144 + f * 4096 + b * 64 + d" using c3 a by simp
  have r: "c div 64 = q" "c mod 64 = d" "c div 64 mod 64 = b" "c div 4096 = a"
    "c div 4096 mod 64 = f" "c div 262144 = e"
    by (simp_all add: d_def q_def b_def a_def f_def e_def div4096 div262144)
  have r2: "q mod 64 = b" "q div 64 = a" "a mod 64 = f" "a div 64 = e"
    by (simp_all add: b_def a_def f_def e_def)
  consider "c < 0x80" | "0x80 \<le> c" "c < 0x800" | "0x800 \<le> c" "c < 0xD800"
    | "0xE000 \<le> c" "c < 0x10000" | "0x10000 \<le> c" "c < 0x110000"
    using assms unfolding is_scalar_value_def by linarith
  then show ?thesis
  proof cases
    case 1
    then show ?thesis by (simp add: utf8_encode_char_def)
  next
    case 2
    then have enc: "utf8_encode_char c = Inr [192 + q, 128 + d]"
      by (simp add: utf8_encode_char_def r r2)
    have "2 \<le> q" "q \<le> 31" using 2 c d by linarith+
    from decode2[OF this d, of rest] enc c show ?thesis by simp
  next
    case 3
    then have enc: "utf8_encode_char c = Inr [224 + a, 128 + b, 128 + d]"
      by (simp add: utf8_encode_char_def r r2)
    have "a \<le> 15" "a = 0 \<Longrightarrow> 32 \<le> b" "a = 13 \<Longrightarrow> b \<le> 31"
      using 3 c3 b d by linarith+
    from decode3[OF this(1) b d this(2,3), of rest] enc c3 show ?thesis by simp
  next
    case 4
    then have enc: "utf8_encode_char c = Inr [224 + a, 128 + b, 128 + d]"
      by (simp add: utf8_encode_char_def r r2)
    have "a \<le> 15" "a = 0 \<Longrightarrow> 32 \<le> b" "a = 13 \<Longrightarrow> b \<le> 31"
      using 4 c3 b d by linarith+
    from decode3[OF this(1) b d this(2,3), of rest] enc c3 show ?thesis by simp
  next
    case 5
    then have enc: "utf8_encode_char c = Inr [240 + e, 128 + f, 128 + b, 128 + d]"
      by (simp add: utf8_encode_char_def r r2)
    have "e \<le> 4" "e = 0 \<Longrightarrow> 16 \<le> f" "e = 4 \<Longrightarrow> f \<le> 15"
      using 5 c4 f b d by linarith+
    from decode4[OF this(1) f b d this(2,3), of rest] enc c4 show ?thesis by simp
  qed
qed

lemma utf8_roundtrip:
  "valid_unicode s \<Longrightarrow>
     \<exists>bs. str_encode_utf8 s = Inr bs \<and> bytes_decode_utf8 bs = Inr s"
proof (induction s)
  case Nil
  then show ?case by simp
next
  case (Cons c cs)
  then obtain rest where rest: "str_encode_utf8 cs = Inr rest" "bytes_decode_utf8 rest = Inr cs"
    by (auto simp: valid_unicode_def)
  from Cons.prems have "is_scalar_value c" by (simp add: valid_unicode_def)
  from utf8_roundtrip_char[OF this, of rest] obtain bs where
    "utf8_encode_char c = Inr bs" "bytes_decode_utf8 (bs @ rest) = Inr (c # cs)"
    using rest by auto
  with rest show ?case by simp
qed

lemma utf8_encode_char_range:
  "utf8_encode_char c = Inr bs \<Longrightarrow> b \<in> set bs \<Longrightarrow> b < 256"
proof -
  assume enc: "utf8_encode_char c = Inr bs" and mem: "b \<in> set bs"
  have m: "c mod 64 < 64" "c div 64 mod 64 < 64" "c div 4096 mod 64 < 64" by simp_all
  have "c < 2048 \<Longrightarrow> c div 64 < 32" "c < 65536 \<Longrightarrow> c div 4096 < 16"
       "c < 1114112 \<Longrightarrow> c div 262144 < 5"
    by (simp_all add: div_less_iff_less_mult)
  with enc mem m show ?thesis
    unfolding utf8_encode_char_def
    by (auto split: if_splits)
qed

lemma str_encode_utf8_range:
  "str_encode_utf8 s = Inr bs \<Longrightarrow> b \<in> set bs \<Longrightarrow> b < 256"
proof (induction s arbitrary: bs)
  case Nil
  then show ?case by simp
next
  case (Cons c cs)
  then show ?case
    by (auto split: sum.splits simp: map_sum_def dest: utf8_encode_char_range)
qed

lemma valid_unicode_is_str: "valid_unicode s \<Longrightarrow> is_str s"
  by (induction s) (auto simp: valid_unicode_def is_str_def is_scalar_value_def)

lemma str_join_chr_ord: "is_str s \<Longrightarrow> str_join_chr (map int s) = Inr s"
  by (induction s) (auto simp: is_str_def py_chr_def)

lemma py_bytes_of_bytes:
  "\<forall>b\<in>set bs. b < 256 \<Longrightarrow> py_bytes (map int bs) = Inr bs"
  by (auto simp: py_bytes_def list_all_iff comp_def)

lemma bytes_join_Some: "bytes_join (map Some bss) = Inr (concat bss)"
  by (induction bss) auto

lemma bytes_join_None: "None \<in> set xs \<Longrightarrow> bytes_join xs = Inl TypeError"
proof (induction xs rule: bytes_join.induct)
  case (3 b rest)
  then show ?case by (auto simp: map_sum_def)
qed auto

lemma map_sum_id_Inl_iff: "map_sum id f x = Inl e \<longleftrightarrow> x = Inl e"
  by (cases x) auto

lemma bytes_decode_utf8_error:
  "bytes_decode_utf8 bs = Inl e \<Longrightarrow> e = UnicodeDecodeError"
proof (induction bs rule: bytes_decode_utf8.induct)
  case 1
  then show ?case by simp
next
  case (2 b0 bs)
  show ?case
  proof (cases "b0 < 0x80")
    case True
    with 2(1,5) show ?thesis by (simp add: map_sum_id_Inl_iff)
  next
    case n1: False
    show ?thesis
    proof (cases "0xC2 \<le> b0 \<and> b0 \<le> 0xDF")
      case True
      from 2(5) n1 True have
        "(case bs of b1 # r \<Rightarrow>
             if is_cont b1
             then map_sum id ((#) ((b0 - 0xC0) * 0x40 + (b1 - 0x80))) (bytes_decode_utf8 r)
             else Inl UnicodeDecodeError
         | _ \<Rightarrow> Inl UnicodeDecodeError) = Inl e"
        by (simp only: bytes_decode_utf8.simps if_False if_True simp_thms)
      with 2(2)[OF n1 True] show ?thesis
        by (simp add: map_sum_id_Inl_iff split: list.splits if_splits)
    next
      case n2: False
      show ?thesis
      proof (cases "0xE0 \<le> b0 \<and> b0 \<le> 0xEF")
        case True
        from 2(5) n1 n2 True have
          "(case bs of
             b1 # b2 # r \<Rightarrow>
               if second_ok b0 b1 \<and> is_cont b2
               then map_sum id
                      ((#) ((b0 - 0xE0) * 0x1000 + (b1 - 0x80) * 0x40 + (b2 - 0x80)))
                      (bytes_decode_utf8 r)
               else Inl UnicodeDecodeError
           | _ \<Rightarrow> Inl UnicodeDecodeError) = Inl e"
          by (simp only: bytes_decode_utf8.simps if_False if_True simp_thms)
        with 2(3)[OF n1 n2 True] show ?thesis
          by (simp add: map_sum_id_Inl_iff split: list.splits if_splits)
      next
        case n3: False
        show ?thesis
        proof (cases "0xF0 \<le> b0 \<and> b0 \<le> 0xF4")
          case True
          from 2(5) n1 n2 n3 True have
            "(case bs of
               b1 # b2 # b3 # r \<Rightarrow>
                 if second_ok b0 b1 \<and> is_cont b2 \<and> is_cont b3
                 then map_sum id
                        ((#) ((b0 - 0xF0) * 0x40000 + (b1 - 0x80) * 0x1000
                              + (b2 - 0x80) * 0x40 + (b3 - 0x80)))
                        (bytes_decode_utf8 r)
                 else Inl UnicodeDecodeError
             | _ \<Rightarrow> Inl UnicodeDecodeError) = Inl e"
            by (simp only: bytes_decode_utf8.simps if_False if_True simp_thms)
          with 2(4)[OF n1 n2 n3 True] show ?thesis
            by (simp add: map_sum_id_Inl_iff split: list.splits if_splits)
        next
          case False
          from 2(5) n1 n2 n3 False have "Inl UnicodeDecodeError = (Inl e :: error + pystr)"
            by (simp only: bytes_decode_utf8.simps if_False if_True simp_thms)
          then show ?thesis by simp
        qed
      qed
    qed
  qed
qed

section \<open>True division\<close>






section \<open>Claims about the tokenizers\<close>

text \<open>
  C1.  For a string of Unicode scalar values, BPE encode seeds the working sequence with
  one id per byte of the UTF-8 encoding of the string, each id between 0 and 255, and
  then applies the merge rules once each in list order; the application of a rule by
  \<open>merge\<close> is the single left-to-right, non-overlapping replacement pass, and the
  sequence after the last rule is the result.
\<close>

theorem BPE_encode_is_ordered_replacement_passes:
  assumes "valid_unicode string"
  shows "\<exists>string_bytes.
           str_encode_utf8 string = Inr string_bytes \<and>
           (\<forall>b\<in>set string_bytes. b \<le> 255) \<and>
           length (map int string_bytes) = length string_bytes \<and>
           BPE_encode params string =
             Inr (foldl (\<lambda>indices (pair, new_id). replacement_pass indices pair new_id)
                    (map int string_bytes) (merges params)) \<and>
           (\<forall>indices pair new_id.
              merge indices pair new_id = replacement_pass indices pair new_id)"
proof -
  from utf8_roundtrip[OF assms] obtain bs where bs: "str_encode_utf8 string = Inr bs"
    by blast
  have "\<forall>b\<in>set bs. b \<le> 255"
    using str_encode_utf8_range[OF bs] by fastforce
  with bs show ?thesis
    by (simp add: BPE_encode_def foldl_merge_replacement_pass merge_replacement_pass)
qed

theorem BPE_encode_is_ordered_replacement_passes_witness:
  "valid_unicode [104, 105, 233] \<and>
   BPE_encode \<lparr>vocab = Map.empty, merges = [((104, 105), 256), ((256, 195), 257)]\<rparr>
     [104, 105, 233] = Inr [257, 169]"
proof -
  have v: "valid_unicode [104, 105, 233]"
    by (simp add: valid_unicode_def is_scalar_value_def)
  have e: "str_encode_utf8 [104, 105, 233] = Inr [104, 105, 195, 169]"
    by (simp add: utf8_encode_char_def)
  from BPE_encode_is_ordered_replacement_passes[OF v,
      of "\<lparr>vocab = Map.empty, merges = [((104, 105), 256), ((256, 195), 257)]\<rparr>"] e v
  show ?thesis by simp
qed

text \<open>
  C4.  For a string of Unicode scalar values, decoding what a tokenizer encoded gives the
  string back, for the code-point tokenizer and for the raw-byte tokenizer.
\<close>

theorem tokenizer_round_trip:
  assumes "valid_unicode s"
  shows "CharacterTokenizer_decode (CharacterTokenizer_encode s) = Inr s \<and>
         (\<exists>indices. ByteTokenizer_encode s = Inr indices \<and>
                    ByteTokenizer_decode indices = Inr s)"
proof -
  from utf8_roundtrip[OF assms] obtain bs where
    bs: "str_encode_utf8 s = Inr bs" "bytes_decode_utf8 bs = Inr s" by blast
  have "\<forall>b\<in>set bs. b < 256" using str_encode_utf8_range[OF bs(1)] by blast
  then have "py_bytes (map int bs) = Inr bs" by (rule py_bytes_of_bytes)
  with bs have "ByteTokenizer_encode s = Inr (map int bs)"
    "ByteTokenizer_decode (map int bs) = Inr s"
    by (simp_all add: ByteTokenizer_encode_def ByteTokenizer_decode_def)
  moreover have "CharacterTokenizer_decode (CharacterTokenizer_encode s) = Inr s"
    using valid_unicode_is_str[OF assms]
    by (simp add: CharacterTokenizer_decode_def CharacterTokenizer_encode_def str_join_chr_ord)
  ultimately show ?thesis by blast
qed

theorem tokenizer_round_trip_witness:
  "valid_unicode [104, 233, 8364, 128512] \<and>
   CharacterTokenizer_decode (CharacterTokenizer_encode [104, 233, 8364, 128512])
     = Inr [104, 233, 8364, 128512] \<and>
   ByteTokenizer_encode [104, 233, 8364, 128512]
     = Inr [104, 195, 169, 226, 130, 172, 240, 159, 152, 128] \<and>
   ByteTokenizer_decode [104, 195, 169, 226, 130, 172, 240, 159, 152, 128]
     = Inr [104, 233, 8364, 128512]"
proof -
  have v: "valid_unicode [104, 233, 8364, 128512]"
    by (simp add: valid_unicode_def is_scalar_value_def)
  have e: "ByteTokenizer_encode [104, 233, 8364, 128512]
     = Inr [104, 195, 169, 226, 130, 172, 240, 159, 152, 128]"
    by (simp add: ByteTokenizer_encode_def utf8_encode_char_def)
  from tokenizer_round_trip[OF v] e v show ?thesis by simp
qed

text \<open>
  C5.  The merge rule with pair (5, 5) and new id 9 turns the id sequence [5, 5, 5] into
  [9, 5], neither [9, 9] nor [5, 9]: matches are consumed left to right without overlap.
  The same holds through BPE encode on the string of three code points 5.
\<close>

theorem merge_non_overlap:
  "merge [5, 5, 5] (5, 5) 9 = [9, 5] \<and>
   merge [5, 5, 5] (5, 5) 9 \<noteq> [9, 9] \<and>
   merge [5, 5, 5] (5, 5) 9 \<noteq> [5, 9] \<and>
   BPE_encode \<lparr>vocab = Map.empty, merges = [((5, 5), 9)]\<rparr> [5, 5, 5] = Inr [9, 5]"
  by (simp add: merge_def merge_loop.simps BPE_encode_def utf8_encode_char_def)

text \<open>
  C6.  With an empty merge rule list, BPE encode returns for every string what the
  raw-byte tokenizer's encode returns: the UTF-8 byte values as ids (and the same failure
  for a string that has no UTF-8 encoding).
\<close>

theorem BPE_encode_no_merges:
  "BPE_encode (params\<lparr>merges := []\<rparr>) string = ByteTokenizer_encode string"
  by (simp add: BPE_encode_def ByteTokenizer_encode_def split: sum.splits)

text \<open>
  C7, as the code has it.  BPE decode of an id sequence with an id absent from the
  vocabulary fails with \<open>TypeError\<close>, which joining the \<open>None\<close> of the failed lookup
  raises, and so returns no string at all; when every id is present, the looked-up byte
  sequences are concatenated in order and parsed as UTF-8, and the only failure of that
  parse is \<open>UnicodeDecodeError\<close>.
\<close>

theorem BPE_decode_unknown_id_fails:
  "((\<exists>i\<in>set indices. vocab params i = None) \<longrightarrow>
      BPE_decode params indices = Inl TypeError \<and>
      (\<forall>s. BPE_decode params indices \<noteq> Inr s)) \<and>
   (map (vocab params) indices = map Some bss \<longrightarrow>
      BPE_decode params indices = bytes_decode_utf8 (concat bss) \<and>
      (\<forall>e. BPE_decode params indices = Inl e \<longrightarrow> e = UnicodeDecodeError))"
proof (intro conjI impI)
  assume "\<exists>i\<in>set indices. vocab params i = None"
  then have "None \<in> set (map (vocab params) indices)" by force
  then have "bytes_join (map (vocab params) indices) = Inl TypeError"
    by (rule bytes_join_None)
  then show "BPE_decode params indices = Inl TypeError"
    by (simp add: BPE_decode_def)
  then show "\<forall>s. BPE_decode params indices \<noteq> Inr s" by simp
next
  assume "map (vocab params) indices = map Some bss"
  then show d: "BPE_decode params indices = bytes_decode_utf8 (concat bss)"
    by (simp add: BPE_decode_def bytes_join_Some)
  show "\<forall>e. BPE_decode params indices = Inl e \<longrightarrow> e = UnicodeDecodeError"
    unfolding d using bytes_decode_utf8_error by blast
qed

theorem BPE_decode_unknown_id_fails_witness:
  "(\<exists>i\<in>set [0, 7]. vocab \<lparr>vocab = [0 \<mapsto> [104], 1 \<mapsto> [195]], merges = []\<rparr> i = None) \<and>
   BPE_decode \<lparr>vocab = [0 \<mapsto> [104], 1 \<mapsto> [195]], merges = []\<rparr> [0, 7] = Inl TypeError \<and>
   map (vocab \<lparr>vocab = [0 \<mapsto> [104], 1 \<mapsto> [195]], merges = []\<rparr>) [0, 0]
     = map Some [[104], [104]] \<and>
   BPE_decode \<lparr>vocab = [0 \<mapsto> [104], 1 \<mapsto> [195]], merges = []\<rparr> [0, 0] = Inr [104, 104] \<and>
   map (vocab \<lparr>vocab = [0 \<mapsto> [104], 1 \<mapsto> [195]], merges = []\<rparr>) [0, 1]
     = map Some [[104], [195]] \<and>
   BPE_decode \<lparr>vocab = [0 \<mapsto> [104], 1 \<mapsto> [195]], merges = []\<rparr> [0, 1]
     = Inl UnicodeDecodeError"
  using BPE_decode_unknown_id_fails[of "[0, 7]"
          "\<lparr>vocab = [0 \<mapsto> [104], 1 \<mapsto> [195]], merges = []\<rparr>" "[]"]
        BPE_decode_unknown_id_fails[of "[0, 0]"
          "\<lparr>vocab = [0 \<mapsto> [104], 1 \<mapsto> [195]], merges = []\<rparr>" "[[104], [104]]"]
        BPE_decode_unknown_id_fails[of "[0, 1]"
          "\<lparr>vocab = [0 \<mapsto> [104], 1 \<mapsto> [195]], merges = []\<rparr>" "[[104], [195]]"]
  by simp

text \<open>
  C7, as stated, fails: the failure for an absent id is not an error of its own kind.
  With a vocabulary that knows only the id 1, decoding [1, 2] ends in the \<open>TypeError\<close>
  of \<open>b"".join\<close>.
\<close>

theorem BPE_decode_unknown_id_counterexample:
  "vocab \<lparr>vocab = [1 \<mapsto> [97]], merges = []\<rparr> 2 = None \<and>
   BPE_decode \<lparr>vocab = [1 \<mapsto> [97]], merges = []\<rparr> [1, 2] = Inl TypeError"
  by (simp add: BPE_decode_def)




text \<open>
  C10.  The output of a merge pass is never longer than its input: its length is the
  input length minus the number of matches the pass replaced.  So the output of BPE
  encode is at most as long as the UTF-8 encoding of the string.
\<close>

theorem merge_never_longer:
  "length (merge indices pair new_index) + merge_matches indices pair 0 = length indices \<and>
   length (merge indices pair new_index) \<le> length indices \<and>
   (str_encode_utf8 string = Inr string_bytes \<longrightarrow>
      (\<exists>ids. BPE_encode params string = Inr ids \<and> length ids \<le> length string_bytes))"
proof (intro conjI impI)
  show "length (merge indices pair new_index) + merge_matches indices pair 0 = length indices"
    using merge_matches_length[of indices pair new_index 0 "[]"] by (simp add: merge_def)
  show "length (merge indices pair new_index) \<le> length indices"
    by (rule merge_length_le)
next
  assume "str_encode_utf8 string = Inr string_bytes"
  then show "\<exists>ids. BPE_encode params string = Inr ids \<and> length ids \<le> length string_bytes"
    using foldl_merge_length_le[of "map int string_bytes" "merges params"]
    by (simp add: BPE_encode_def)
qed

theorem merge_never_longer_witness:
  "str_encode_utf8 [97, 97, 97, 98] = Inr [97, 97, 97, 98] \<and>
   merge [97, 97, 97, 98] (97, 97) 256 = [256, 97, 98] \<and>
   merge_matches [97, 97, 97, 98] (97, 97) 0 = 1 \<and>
   BPE_encode \<lparr>vocab = Map.empty, merges = [((97, 97), 256), ((97, 98), 257)]\<rparr>
     [97, 97, 97, 98] = Inr [256, 257]"
proof -
  have e: "str_encode_utf8 [97, 97, 97, 98] = Inr [97, 97, 97, 98]"
    by (simp add: utf8_encode_char_def)
  have m: "merge [97, 97, 97, 98] (97, 97) 256 = [256, 97, 98]"
    by (simp add: merge_def merge_loop.simps)
  have b: "BPE_encode \<lparr>vocab = Map.empty, merges = [((97, 97), 256), ((97, 98), 257)]\<rparr>
     [97, 97, 97, 98] = Inr [256, 257]"
    by (simp add: BPE_encode_def utf8_encode_char_def merge_def merge_loop.simps)
  from merge_never_longer[of "[97, 97, 97, 98]" "(97, 97)" 256 "[97, 97, 97, 98]"
         "[97, 97, 97, 98]"
         "\<lparr>vocab = Map.empty, merges = [((97, 97), 256), ((97, 98), 257)]\<rparr>"] e m b
  show ?thesis by simp
qed

section \<open>The look-ahead search\<close>

lemma find_from_cases:
  "(find_from h sub i = - 1 \<and> 0 \<le> i \<and> (\<forall>j\<le>length h. take (length sub) (drop j h) \<noteq> sub))
   \<or> i < 0 \<or>
   (\<exists>j\<le>length h. find_from h sub i = i + int j \<and> take (length sub) (drop j h) = sub \<and>
        (\<forall>j'<j. take (length sub) (drop j' h) \<noteq> sub))"
proof (induction h arbitrary: i)
  case Nil
  then show ?case by auto
next
  case (Cons b bs)
  show ?case
  proof (cases "take (length sub) (b # bs) = sub")
    case True
    then have "find_from (b # bs) sub i = i + int 0 \<and> take (length sub) (drop 0 (b # bs)) = sub"
      by simp
    then show ?thesis by blast
  next
    case False
    then have f: "find_from (b # bs) sub i = find_from bs sub (i + 1)" by simp
    from Cons.IH[of "i + 1"] consider
      (none) "find_from bs sub (i + 1) = - 1" "0 \<le> i + 1"
             "\<forall>j\<le>length bs. take (length sub) (drop j bs) \<noteq> sub"
      | (neg) "i + 1 < 0"
      | (some) j where "j \<le> length bs" "find_from bs sub (i + 1) = i + 1 + int j"
             "take (length sub) (drop j bs) = sub"
             "\<forall>j'<j. take (length sub) (drop j' bs) \<noteq> sub"
      by blast
    then show ?thesis
    proof cases
      case none
      have "\<forall>j\<le>length (b # bs). take (length sub) (drop j (b # bs)) \<noteq> sub"
      proof (intro allI impI)
        fix j assume "j \<le> length (b # bs)"
        then show "take (length sub) (drop j (b # bs)) \<noteq> sub"
          using False none(3) by (cases j) auto
      qed
      with none f show ?thesis by (cases "i < 0") auto
    next
      case neg
      then show ?thesis by simp
    next
      case some
      have "\<forall>j'<Suc j. take (length sub) (drop j' (b # bs)) \<noteq> sub"
      proof (intro allI impI)
        fix j' assume "j' < Suc j"
        then show "take (length sub) (drop j' (b # bs)) \<noteq> sub"
          using False some(4) by (cases j') auto
      qed
      moreover have "Suc j \<le> length (b # bs)" using some(1) by simp
      moreover have "find_from (b # bs) sub i = i + int (Suc j)" using f some(2) by simp
      moreover have "take (length sub) (drop (Suc j) (b # bs)) = sub" using some(3) by simp
      ultimately show ?thesis by blast
    qed
  qed
qed

lemma bytes_find_cases:
  obtains (missing) "bytes_find h sub = - 1" "\<And>j. j \<le> length h \<Longrightarrow> take (length sub) (drop j h) \<noteq> sub"
  | (found) j where "bytes_find h sub = int j" "j \<le> length h"
      "take (length sub) (drop j h) = sub"
      "\<And>j'. j' < j \<Longrightarrow> take (length sub) (drop j' h) \<noteq> sub"
  using find_from_cases[of h sub 0] unfolding bytes_find_def by auto

lemma window_occurrence:
  assumes "j + length sub \<le> n"
  shows "take (length sub) (drop j (take n xs)) = take (length sub) (drop j xs)"
  using assms by (simp add: drop_take min_def)

lemma occurrence_fits:
  assumes "take (length sub) (drop j ys) = sub" "j \<le> length ys"
  shows "j + length sub \<le> length ys"
proof -
  from assms(1) have "length (take (length sub) (drop j ys)) = length sub" by simp
  with assms(2) show ?thesis by simp
qed

lemma window_start:
  assumes "p < length data"
  shows "take mini_chunk_size (drop p data) \<noteq> []"
  using assms by (simp add: mini_chunk_size_def)

lemma in_window_chunk:
  assumes "j + length sub \<le> mini_chunk_size"
  shows "take (length sub) (drop j (take mini_chunk_size (drop g data))) =
         take (length sub) (drop (g + j) data)"
  using window_occurrence[OF assms, of "drop g data"] by (simp add: add.commute)

lemma inside_window_shift:
  assumes "g + mini_chunk_size \<le> q"
  shows "inside_window (g + mini_chunk_size) m q = inside_window g m q"
proof -
  have "q - g = (q - (g + mini_chunk_size)) + mini_chunk_size" using assms by simp
  then have "(q - g) mod mini_chunk_size = (q - (g + mini_chunk_size)) mod mini_chunk_size"
    by (metis mod_add_self2)
  with assms show ?thesis by (simp add: inside_window_def)
qed

lemma inside_first_window:
  assumes "inside_window g m q" "q < g + mini_chunk_size"
  shows "(q - g) + m \<le> mini_chunk_size"
proof -
  from assms(1) have w: "(q - g) mod mini_chunk_size + m \<le> mini_chunk_size"
    by (simp add: inside_window_def)
  from assms(2) have "q - g < mini_chunk_size" by (simp add: mini_chunk_size_def)
  then have "(q - g) mod mini_chunk_size = q - g" by simp
  with w show ?thesis by simp
qed

lemma read_ahead_unfold:
  "read_ahead file tok fs ip =
     (let mini_chunk = take mini_chunk_size (drop (pos file) (contents file));
          file' = file\<lparr>pos := pos file + length mini_chunk\<rparr>
      in if mini_chunk = [] then (fs, file')
         else if bytes_find mini_chunk tok \<noteq> - 1 then (ip + bytes_find mini_chunk tok, file')
         else read_ahead file' tok fs (ip + int mini_chunk_size))"
  by (subst read_ahead.simps) (simp add: file_read_def Let_def)

lemma read_ahead_result:
  assumes "pos fl = g \<or> (length (contents fl) \<le> pos fl \<and> length (contents fl) \<le> g)"
  shows "(fst (read_ahead fl tok (int (length (contents fl))) (int g))
            = int (length (contents fl)) \<or>
          (\<exists>q. fst (read_ahead fl tok (int (length (contents fl))) (int g)) = int q \<and>
               delimiter_at (contents fl) tok q \<and> inside_window g (length tok) q)) \<and>
         (\<forall>q. delimiter_at (contents fl) tok q \<and> inside_window g (length tok) q \<longrightarrow>
               fst (read_ahead fl tok (int (length (contents fl))) (int g)) \<le> int q) \<and>
         contents (snd (read_ahead fl tok (int (length (contents fl))) (int g)))
            = contents fl"
  using assms
proof (induction "length (contents fl) - pos fl" arbitrary: fl g rule: less_induct)
  case less
  define data where "data = contents fl"
  define L where "L = length data"
  define p where "p = pos fl"
  define m where "m = length tok"
  define mc where "mc = take mini_chunk_size (drop p data)"
  define fl' where "fl' = fl\<lparr>pos := p + length mc\<rparr>"
  have inv: "p = g \<or> (L \<le> p \<and> L \<le> g)"
    using less.prems by (simp add: p_def L_def data_def)
  have unfold: "read_ahead fl tok (int L) (int g) =
     (if mc = [] then (int L, fl')
      else if bytes_find mc tok \<noteq> - 1 then (int g + bytes_find mc tok, fl')
      else read_ahead fl' tok (int L) (int g + int mini_chunk_size))"
    by (subst read_ahead_unfold) (simp add: Let_def mc_def fl'_def p_def data_def)
  have c': "contents fl' = data" by (simp add: fl'_def data_def)
  have Lc: "length (contents fl) = L" by (simp add: L_def data_def)
  have goal: "(fst (read_ahead fl tok (int L) (int g)) = int L \<or>
          (\<exists>q. fst (read_ahead fl tok (int L) (int g)) = int q \<and>
               delimiter_at data tok q \<and> inside_window g m q)) \<and>
         (\<forall>q. delimiter_at data tok q \<and> inside_window g m q \<longrightarrow>
               fst (read_ahead fl tok (int L) (int g)) \<le> int q) \<and>
         contents (snd (read_ahead fl tok (int L) (int g))) = data"
  proof (cases "mc = []")
    case True
    then have "L \<le> p"
      by (cases "p < L") (auto simp: mc_def L_def mini_chunk_size_def)
    with inv have "L \<le> g" by auto
    then have "\<forall>q. inside_window g m q \<longrightarrow> int L \<le> int q"
      by (auto simp: inside_window_def)
    with True unfold c' show ?thesis by simp
  next
    case nonempty: False
    then have pL: "p < L" by (auto simp: mc_def L_def)
    with inv have pg: "p = g" by auto
    have mc: "mc = take mini_chunk_size (drop g data)" by (simp add: mc_def pg)
    have len_mc: "length mc = min mini_chunk_size (L - g)" by (simp add: mc L_def)
    show ?thesis
    proof (cases rule: bytes_find_cases[of mc tok])
      case missing
      have r: "read_ahead fl tok (int L) (int g) =
                 read_ahead fl' tok (int (length (contents fl'))) (int (g + mini_chunk_size))"
        using unfold nonempty missing(1) by (simp add: c' L_def)
      from nonempty have "0 < length mc" by simp
      with pL have "L - (p + length mc) < L - p" by linarith
      then have smaller: "length (contents fl') - pos fl' < length (contents fl) - pos fl"
        by (simp add: fl'_def p_def[symmetric] c' data_def[symmetric] L_def[symmetric])
      have inv': "pos fl' = g + mini_chunk_size \<or>
                  (length (contents fl') \<le> pos fl' \<and>
                   length (contents fl') \<le> g + mini_chunk_size)"
        using pg len_mc pL Lc by (auto simp: fl'_def min_def)
      note IH = less.hyps[OF smaller inv', folded r, unfolded c', folded L_def m_def]
      have far: "g + mini_chunk_size \<le> q" if q: "delimiter_at data tok q" "inside_window g m q" for q
      proof (rule ccontr)
        assume "\<not> g + mini_chunk_size \<le> q"
        then have near: "q < g + mini_chunk_size" by simp
        from q(2) have gq: "g \<le> q" by (simp add: inside_window_def)
        from inside_first_window[OF q(2) near] have fit: "(q - g) + length tok \<le> mini_chunk_size"
          by (simp add: m_def)
        from q(1) have "q + length tok \<le> L" by (simp add: delimiter_at_def L_def)
        with gq near have "q - g \<le> length mc" unfolding len_mc by arith
        from missing(2)[OF this] in_window_chunk[OF fit, of g data] gq q(1)
        show False by (simp add: mc delimiter_at_def)
      qed
      have one: "fst (read_ahead fl tok (int L) (int g)) = int L \<or>
          (\<exists>q. fst (read_ahead fl tok (int L) (int g)) = int q \<and>
               delimiter_at data tok q \<and> inside_window g m q)"
      proof -
        from IH consider "fst (read_ahead fl tok (int L) (int g)) = int L"
          | q where "fst (read_ahead fl tok (int L) (int g)) = int q"
              "delimiter_at data tok q" "inside_window (g + mini_chunk_size) m q"
          by blast
        then show ?thesis
        proof cases
          case 1
          then show ?thesis by simp
        next
          case 2
          from 2(3) have "g + mini_chunk_size \<le> q" by (simp add: inside_window_def)
          from inside_window_shift[OF this, of m] 2 show ?thesis by blast
        qed
      qed
      have two: "\<forall>q. delimiter_at data tok q \<and> inside_window g m q \<longrightarrow>
               fst (read_ahead fl tok (int L) (int g)) \<le> int q"
      proof (intro allI impI)
        fix q assume q: "delimiter_at data tok q \<and> inside_window g m q"
        then have "g + mini_chunk_size \<le> q" using far by blast
        from inside_window_shift[OF this, of m] q IH
        show "fst (read_ahead fl tok (int L) (int g)) \<le> int q" by blast
      qed
      from one two IH show ?thesis by blast
    next
      case (found j)
      have r: "read_ahead fl tok (int L) (int g) = (int (g + j), fl')"
        using unfold nonempty found(1) by simp
      from occurrence_fits[OF found(3) found(2)] have fit_mc: "j + length tok \<le> length mc" .
      then have fit: "j + length tok \<le> mini_chunk_size" and fitL: "g + j + length tok \<le> L"
        using pL pg unfolding len_mc by arith+
      from found(3) in_window_chunk[OF fit, of g data]
      have occ: "take (length tok) (drop (g + j) data) = tok" by (simp add: mc)
      with fitL have d: "delimiter_at data tok (g + j)" by (simp add: delimiter_at_def L_def)
      have "j mod mini_chunk_size \<le> j" by simp
      with fit have "j mod mini_chunk_size + length tok \<le> mini_chunk_size" by linarith
      then have w: "inside_window g m (g + j)" by (simp add: inside_window_def m_def)
      have least: "int (g + j) \<le> int q" if q: "delimiter_at data tok q" "inside_window g m q" for q
      proof (rule ccontr)
        assume "\<not> int (g + j) \<le> int q"
        then have lt: "q < g + j" by simp
        from q(2) have gq: "g \<le> q" by (simp add: inside_window_def)
        from fit lt have near: "q < g + mini_chunk_size" by simp
        from inside_first_window[OF q(2) near] have fit': "(q - g) + length tok \<le> mini_chunk_size"
          by (simp add: m_def)
        from lt gq have "q - g < j" by simp
        from found(4)[OF this] in_window_chunk[OF fit', of g data] gq q(1)
        show False by (simp add: mc delimiter_at_def)
      qed
      from r d w least c' show ?thesis by auto
    qed
  qed
  then show ?case by (simp add: L_def data_def m_def)
qed

lemma seek_file: "contents fl = data \<Longrightarrow> fl\<lparr>pos := x\<rparr> = \<lparr>contents = data, pos = x\<rparr>"
  by (cases fl) simp

lemma snap_result:
  assumes "0 \<le> ip"
  shows "(snap data tok ip = int (length data) \<or>
          (\<exists>q. snap data tok ip = int q \<and> delimiter_at data tok q \<and>
               inside_window (nat ip) (length tok) q)) \<and>
         (\<forall>q. delimiter_at data tok q \<and> inside_window (nat ip) (length tok) q \<longrightarrow>
               snap data tok ip \<le> int q)"
  using read_ahead_result[of "\<lparr>contents = data, pos = nat ip\<rparr>" "nat ip" tok] assms
  by (simp add: snap_def)

lemma read_ahead_after_seek:
  assumes "0 \<le> ip" "contents fl = data"
  shows "\<exists>file2. read_ahead (fl\<lparr>pos := nat ip\<rparr>) tok (int (length data)) ip
                    = (snap data tok ip, file2) \<and> contents file2 = data"
proof -
  have e: "fl\<lparr>pos := nat ip\<rparr> = \<lparr>contents = data, pos = nat ip\<rparr>"
    using assms(2) by (rule seek_file)
  from read_ahead_result[of "\<lparr>contents = data, pos = nat ip\<rparr>" "nat ip" tok] assms(1)
  have "contents (snd (read_ahead \<lparr>contents = data, pos = nat ip\<rparr> tok (int (length data)) ip))
          = data" by simp
  then show ?thesis
    unfolding e snap_def by (cases "read_ahead \<lparr>contents = data, pos = nat ip\<rparr> tok (int (length data)) ip") simp
qed

lemma snap_boundaries_result:
  assumes "distinct bis" "\<forall>bi\<in>set bis. bi < length cb \<and> 0 \<le> cb ! bi" "contents fl = data"
  shows "\<exists>cb'. snap_boundaries fl tok (int (length data)) cb bis = Inr cb' \<and>
               length cb' = length cb \<and>
               (\<forall>i<length cb. cb' ! i = (if i \<in> set bis then snap data tok (cb ! i) else cb ! i))"
  using assms
proof (induction bis arbitrary: fl cb)
  case Nil
  then show ?case by simp
next
  case (Cons bi bis)
  define ip where "ip = cb ! bi"
  from Cons.prems(2) have ip: "0 \<le> ip" and bi: "bi < length cb" by (simp_all add: ip_def)
  from read_ahead_after_seek[OF ip Cons.prems(3), of tok] obtain file2 where
    r: "read_ahead (fl\<lparr>pos := nat ip\<rparr>) tok (int (length data)) ip = (snap data tok ip, file2)"
    and c2: "contents file2 = data" by blast
  define cb1 where "cb1 = cb[bi := snap data tok ip]"
  have step: "snap_boundaries fl tok (int (length data)) cb (bi # bis) =
                snap_boundaries file2 tok (int (length data)) cb1 bis"
    using ip r by (simp add: file_seek_def ip_def[symmetric] cb1_def)
  from Cons.prems(1) have d: "distinct bis" and nbi: "bi \<notin> set bis" by simp_all
  have pre: "\<forall>bj\<in>set bis. bj < length cb1 \<and> 0 \<le> cb1 ! bj"
    using Cons.prems(2) nbi by (auto simp: cb1_def nth_list_update)
  from Cons.IH[OF d pre c2] obtain cb' where
    cb': "snap_boundaries file2 tok (int (length data)) cb1 bis = Inr cb'"
      "length cb' = length cb1"
      "\<forall>i<length cb1. cb' ! i = (if i \<in> set bis then snap data tok (cb1 ! i) else cb1 ! i)"
    by blast
  have "\<forall>i<length cb. cb' ! i = (if i \<in> set (bi # bis) then snap data tok (cb ! i) else cb ! i)"
  proof (intro allI impI)
    fix i assume i: "i < length cb"
    show "cb' ! i = (if i \<in> set (bi # bis) then snap data tok (cb ! i) else cb ! i)"
    proof (cases "i = bi")
      case True
      with cb'(3) i nbi show ?thesis by (simp add: cb1_def ip_def)
    next
      case False
      with cb'(3) i show ?thesis by (simp add: cb1_def)
    qed
  qed
  with step cb'(1,2) show ?case by (simp add: cb1_def)
qed

lemma naive_boundaries_nth:
  assumes "0 < k" "i \<le> nat k"
  shows "map (\<lambda>i. i * cs) [0..k] ! i = int i * cs"
proof -
  from assms have le: "0 + int i \<le> k" by linarith
  from assms have "i < length [0..k]" by simp
  then have "map (\<lambda>i. i * cs) [0..k] ! i = ([0..k] ! i) * cs" by (rule nth_map)
  with nth_upto[OF le] show ?thesis by simp
qed

lemma snapped_boundaries_result:
  assumes "0 < k"
  shows "\<exists>cb. snapped_boundaries fl k tok = Inr cb \<and> length cb = nat k + 1 \<and>
              cb ! 0 = 0 \<and> cb ! nat k = int (length (contents fl)) \<and>
              (\<forall>i. 0 < i \<and> i < nat k \<longrightarrow>
                 cb ! i = snap (contents fl) tok (naive_guess (length (contents fl)) k (int i)))"
proof -
  define data where "data = contents fl"
  define L where "L = length data"
  define cs where "cs = int L div k"
  define cb0 where "cb0 = map (\<lambda>i. i * cs) [0..k]"
  define cb1 where "cb1 = cb0[length cb0 - 1 := int L]"
  have len0: "length cb0 = nat k + 1" using assms by (simp add: cb0_def nat_add_distrib)
  then have ne: "cb0 \<noteq> []" by auto
  have len1: "length cb1 = nat k + 1" by (simp add: cb1_def len0)
  have cs: "0 \<le> cs" using assms by (simp add: cs_def pos_imp_zdiv_nonneg_iff)
  have nth0: "cb0 ! i = int i * cs" if "i \<le> nat k" for i
    unfolding cb0_def using assms that by (rule naive_boundaries_nth)
  have nth1: "cb1 ! i = (if i = nat k then int L else int i * cs)" if "i \<le> nat k" for i
    using that nth0[OF that] by (simp add: cb1_def len0 nth_list_update)
  have unfold: "snapped_boundaries fl k tok =
                  snap_boundaries (fl\<lparr>pos := 0\<rparr>) tok (int L) cb1 [1..<nat k]"
  proof -
    have "nat (k + 1) - Suc 0 = nat k" using assms by arith
    with assms ne show ?thesis
      by (simp add: snapped_boundaries_def Let_def cb1_def cb0_def cs_def L_def data_def)
  qed
  have pre: "\<forall>bi\<in>set [1..<nat k]. bi < length cb1 \<and> 0 \<le> cb1 ! bi"
    using cs by (auto simp: len1 nth1)
  have c: "contents (fl\<lparr>pos := 0\<rparr>) = data" by (simp add: data_def)
  from snap_boundaries_result[OF distinct_upt pre c, of tok] obtain cb where
    cb: "snap_boundaries (fl\<lparr>pos := 0\<rparr>) tok (int L) cb1 [1..<nat k] = Inr cb"
      "length cb = length cb1"
      "\<forall>i<length cb1. cb ! i = (if i \<in> set [1..<nat k] then snap data tok (cb1 ! i) else cb1 ! i)"
    unfolding L_def by blast
  have a: "cb ! 0 = 0" using cb(3) assms by (simp add: len1 nth1)
  have b: "cb ! nat k = int L" using cb(3) by (simp add: len1 nth1)
  have i: "\<forall>i. 0 < i \<and> i < nat k \<longrightarrow> cb ! i = snap data tok (naive_guess L k (int i))"
    using cb(3) by (simp add: len1 nth1 naive_guess_def cs_def)
  from unfold cb(1,2) a b i show ?thesis
    by (simp add: len1 L_def data_def)
qed

lemma sorted_hd_le:
  fixes xs :: "int list"
  shows "sorted xs \<Longrightarrow> x \<in> set xs \<Longrightarrow> hd xs \<le> x"
  by (cases xs) auto

lemma sorted_le_last:
  fixes xs :: "int list"
  shows "sorted xs \<Longrightarrow> x \<in> set xs \<Longrightarrow> x \<le> last xs"
  by (induction xs) auto

lemma sorted_set_ends:
  fixes cb :: "int list"
  assumes "\<forall>x\<in>set cb. lo \<le> x \<and> x \<le> hi" "lo \<in> set cb" "hi \<in> set cb"
  shows "sorted_list_of_set (set cb) \<noteq> [] \<and>
         sorted_wrt (<) (sorted_list_of_set (set cb)) \<and>
         hd (sorted_list_of_set (set cb)) = lo \<and>
         last (sorted_list_of_set (set cb)) = hi \<and>
         length (sorted_list_of_set (set cb)) \<le> length cb \<and>
         set (sorted_list_of_set (set cb)) = set cb"
proof -
  define bs where "bs = sorted_list_of_set (set cb)"
  have s: "set bs = set cb" by (simp add: bs_def)
  have ne: "bs \<noteq> []" using assms(2) s by auto
  have st: "sorted_wrt (<) bs" unfolding bs_def by (rule strict_sorted_list_of_set)
  have so: "sorted bs" unfolding bs_def by (rule sorted_sorted_list_of_set)
  have "hd bs \<in> set bs" "last bs \<in> set bs" using ne by simp_all
  with assms(1) s have b: "lo \<le> hd bs" "last bs \<le> hi" by auto
  from sorted_hd_le[OF so, of lo] assms(2) s have "hd bs \<le> lo" by simp
  moreover from sorted_le_last[OF so, of hi] assms(3) s have "hi \<le> last bs" by simp
  moreover have "length bs \<le> length cb"
    unfolding bs_def by (simp add: card_length)
  ultimately show ?thesis using ne st b s unfolding bs_def by auto
qed

lemma find_from_zeros_one:
  "find_from (replicate n 0 @ [1]) [1, 2] i = - 1"
  by (induction n arbitrary: i) simp_all

lemma list_of_length_3: "length xs = 3 \<Longrightarrow> xs = [xs ! 0, xs ! 1, xs ! 2]"
  by (auto simp: list_eq_iff_nth_eq less_Suc_eq eval_nat_numeral)

lemma snap_straddle:
  "snap (replicate 8191 0 @ [1, 2]) [1, 2] 4096 = 8193"
proof -
  define data :: "byte list" where "data = replicate 8191 0 @ [1, 2]"
  have len: "length data = 8193" by (simp add: data_def)
  have d1: "take mini_chunk_size (drop 4096 data) = replicate 4095 0 @ [1]"
    by (simp add: data_def mini_chunk_size_def)
  have d2: "take mini_chunk_size (drop 8192 data) = [2]"
    by (simp add: data_def mini_chunk_size_def)
  have d3: "take mini_chunk_size (drop 8193 data) = []"
    by (simp add: data_def mini_chunk_size_def)
  have m: "int mini_chunk_size = 4096" by (simp add: mini_chunk_size_def)
  have s3: "fst (read_ahead \<lparr>contents = data, pos = 8193\<rparr> [1, 2] 8193 12288) = 8193"
    by (subst read_ahead_unfold) (simp add: Let_def d3)
  have s2: "fst (read_ahead \<lparr>contents = data, pos = 8192\<rparr> [1, 2] 8193 8192) = 8193"
    using s3 by (subst read_ahead_unfold) (simp add: Let_def d2 bytes_find_def m)
  have s1: "fst (read_ahead \<lparr>contents = data, pos = 4096\<rparr> [1, 2] 8193 4096) = 8193"
    using s2 find_from_zeros_one[of 4095 0]
    by (subst read_ahead_unfold) (simp add: Let_def d1 bytes_find_def m)
  then show ?thesis unfolding snap_def data_def by simp
qed


lemma naive_guess_range:
  assumes "0 < k" "0 \<le> i" "i \<le> k"
  shows "0 \<le> naive_guess L k i \<and> naive_guess L k i \<le> int L"
proof -
  have cs: "0 \<le> int L div k" using assms(1) by (simp add: pos_imp_zdiv_nonneg_iff)
  have "i * (int L div k) \<le> k * (int L div k)"
    using assms(3) cs by (rule mult_right_mono)
  also have "\<dots> \<le> int L"
  proof -
    have "k * (int L div k) + int L mod k = int L" by simp
    moreover have "0 \<le> int L mod k" using assms(1) by simp
    ultimately show ?thesis by linarith
  qed
  finally have "naive_guess L k i \<le> int L" by (simp add: naive_guess_def)
  moreover have "0 \<le> naive_guess L k i"
    using assms(2) cs by (simp add: naive_guess_def)
  ultimately show ?thesis by simp
qed

lemma interior_boundary:
  assumes "0 < k" "0 < i" "i < k"
  shows "\<exists>cb. snapped_boundaries fl k tok = Inr cb \<and>
              find_chunk_boundaries fl k tok = Inr (sorted_list_of_set (set cb)) \<and>
              length cb = nat k + 1 \<and> cb ! 0 = 0 \<and> cb ! nat k = int (length (contents fl)) \<and>
              cb ! nat i = snap (contents fl) tok (naive_guess (length (contents fl)) k i)"
proof -
  from snapped_boundaries_result[OF assms(1), of fl tok] obtain cb where
    cb: "snapped_boundaries fl k tok = Inr cb" "length cb = nat k + 1"
      "cb ! 0 = 0" "cb ! nat k = int (length (contents fl))"
      "\<forall>j. 0 < j \<and> j < nat k \<longrightarrow>
         cb ! j = snap (contents fl) tok (naive_guess (length (contents fl)) k (int j))"
    by blast
  from assms have "0 < nat i \<and> nat i < nat k" by simp
  with cb(5) assms(2) have "cb ! nat i = snap (contents fl) tok (naive_guess (length (contents fl)) k i)"
    by fastforce
  with cb show ?thesis by (simp add: find_chunk_boundaries_def)
qed

section \<open>Claims about the chunk boundary finder\<close>

text \<open>
  C2.  For a byte source of length L and a positive desired_num_chunks k (and any
  delimiter, the non-empty ones included), the chunk boundary finder returns a sequence
  that is strictly increasing, begins at 0, ends at L and has at most k + 1 elements.
  Its points are the k + 1 boundaries held before deduplication: the first is 0, the last
  is L, and the interior boundary of every index i is either L or the start offset of
  an occurrence of the delimiter at or after the naive guess of that same index i.
\<close>

theorem find_chunk_boundaries_contract:
  assumes "0 < k"
  shows "\<exists>cb bs. snapped_boundaries fl k tok = Inr cb \<and>
           find_chunk_boundaries fl k tok = Inr bs \<and>
           bs \<noteq> [] \<and> sorted_wrt (<) bs \<and>
           hd bs = 0 \<and> last bs = int (length (contents fl)) \<and>
           length bs \<le> nat k + 1 \<and>
           set bs = set cb \<and> length cb = nat k + 1 \<and>
           (\<forall>x\<in>set bs. \<exists>i. 0 \<le> i \<and> i \<le> k \<and> x = cb ! nat i) \<and>
           cb ! 0 = 0 \<and> cb ! nat k = int (length (contents fl)) \<and>
           (\<forall>i. 0 < i \<and> i < k \<longrightarrow>
              cb ! nat i = int (length (contents fl)) \<or>
              (\<exists>q. cb ! nat i = int q \<and>
                   naive_guess (length (contents fl)) k i \<le> int q \<and>
                   delimiter_at (contents fl) tok q))"
proof -
  define data where "data = contents fl"
  define L where "L = length data"
  from snapped_boundaries_result[OF assms, of fl tok] obtain cb where
    cb: "snapped_boundaries fl k tok = Inr cb" "length cb = nat k + 1"
      "cb ! 0 = 0" "cb ! nat k = int L"
      "\<forall>j. 0 < j \<and> j < nat k \<longrightarrow> cb ! j = snap data tok (naive_guess L k (int j))"
    unfolding L_def data_def by blast
  have interior: "cb ! nat i = int L \<or>
                  (\<exists>q. cb ! nat i = int q \<and> naive_guess L k i \<le> int q \<and>
                       delimiter_at data tok q)" if i: "0 < i" "i < k" for i
  proof -
    define g where "g = naive_guess L k i"
    from naive_guess_range[OF assms, of i L] i have g0: "0 \<le> g" by (simp add: g_def)
    from i have "0 < nat i \<and> nat i < nat k" by simp
    with cb(5) i(1) have xs: "cb ! nat i = snap data tok g" unfolding g_def by fastforce
    from snap_result[OF g0, of data tok] consider "snap data tok g = int L"
      | q where "snap data tok g = int q" "delimiter_at data tok q"
                "inside_window (nat g) (length tok) q"
      unfolding L_def by blast
    then show ?thesis
    proof cases
      case 1
      with xs show ?thesis by simp
    next
      case 2
      from 2(3) have "nat g \<le> q" by (simp add: inside_window_def)
      with g0 have "g \<le> int q" by linarith
      with 2 xs show ?thesis unfolding g_def by auto
    qed
  qed
  have index: "\<exists>i. 0 \<le> i \<and> i \<le> k \<and> x = cb ! nat i" if x: "x \<in> set cb" for x
  proof -
    from x obtain j where j: "j < length cb" "x = cb ! j" by (auto simp: in_set_conv_nth)
    from j(1) cb(2) assms have "0 \<le> int j \<and> int j \<le> k" by linarith
    with j(2) show ?thesis by (metis nat_int)
  qed
  have bounds: "\<forall>x\<in>set cb. 0 \<le> x \<and> x \<le> int L"
  proof
    fix x assume "x \<in> set cb"
    from index[OF this] obtain i where i: "0 \<le> i" "i \<le> k" "x = cb ! nat i" by blast
    consider "i = 0" | "i = k" | "0 < i" "i < k" using i(1,2) by linarith
    then show "0 \<le> x \<and> x \<le> int L"
    proof cases
      case 1
      with i(3) cb(3) show ?thesis by simp
    next
      case 2
      with i(3) cb(4) show ?thesis by simp
    next
      case 3
      from interior[OF 3] i(3) show ?thesis by (auto simp: delimiter_at_def L_def)
    qed
  qed
  have z: "0 \<in> set cb" using cb(2,3) by (metis add_gr_0 less_numeral_extra(1) nth_mem)
  have l: "int L \<in> set cb" using cb(2,4) by (metis less_add_one nth_mem)
  define bs where "bs = sorted_list_of_set (set cb)"
  from sorted_set_ends[OF bounds z l] have ends: "bs \<noteq> []" "sorted_wrt (<) bs" "hd bs = 0"
    "last bs = int L" "length bs \<le> length cb" "set bs = set cb"
    unfolding bs_def by simp_all
  have f: "find_chunk_boundaries fl k tok = Inr bs"
    using cb(1) by (simp add: find_chunk_boundaries_def bs_def)
  have idx: "\<forall>x\<in>set bs. \<exists>i. 0 \<le> i \<and> i \<le> k \<and> x = cb ! nat i"
    using index ends(6) by blast
  have int_all: "\<forall>i. 0 < i \<and> i < k \<longrightarrow>
              cb ! nat i = int L \<or>
              (\<exists>q. cb ! nat i = int q \<and> naive_guess L k i \<le> int q \<and> delimiter_at data tok q)"
    using interior by blast
  from cb(1) f ends(1,2,3,4) ends(5)[unfolded cb(2)] ends(6) cb(2) idx cb(3,4) int_all
  show ?thesis unfolding L_def data_def by blast
qed

theorem find_chunk_boundaries_contract_witness:
  "(0::int) < 4 \<and>
   snapped_boundaries \<lparr>contents = [0, 0, 1, 1, 1, 0, 0, 0], pos = 0\<rparr> 4 [1]
     = Inr [0, 2, 4, 8, 8] \<and>
   find_chunk_boundaries \<lparr>contents = [0, 0, 1, 1, 1, 0, 0, 0], pos = 0\<rparr> 4 [1]
     = Inr [0, 2, 4, 8] \<and>
   naive_guess 8 4 1 = 2 \<and> delimiter_at [0, 0, 1, 1, 1, 0, 0, 0] [1] 2 \<and>
   naive_guess 8 4 2 = 4 \<and> delimiter_at [0, 0, 1, 1, 1, 0, 0, 0] [1] 4 \<and>
   naive_guess 8 4 3 = 6"
proof -
  have s: "snapped_boundaries \<lparr>contents = [0, 0, 1, 1, 1, 0, 0, 0], pos = 0\<rparr> 4 [1]
     = Inr [0, 2, 4, 8, 8]"
    by code_simp
  have e: "find_chunk_boundaries \<lparr>contents = [0, 0, 1, 1, 1, 0, 0, 0], pos = 0\<rparr> 4 [1]
     = Inr [0, 2, 4, 8]"
    by code_simp
  have d: "delimiter_at [0, 0, 1, 1, 1, 0, 0, 0] [1] 2"
    "delimiter_at [0, 0, 1, 1, 1, 0, 0, 0] [1] 4"
    by code_simp+
  have g: "naive_guess 8 4 1 = 2" "naive_guess 8 4 2 = 4" "naive_guess 8 4 3 = 6"
    by (simp_all add: naive_guess_def)
  from find_chunk_boundaries_contract[of 4
      "\<lparr>contents = [0, 0, 1, 1, 1, 0, 0, 0], pos = 0\<rparr>" "[1]"] s e d g
  show ?thesis by simp
qed

lemma snap_empty_delimiter:
  assumes "0 \<le> g" "g \<le> int (length data)"
  shows "snap data [] g = g"
proof -
  have d: "delimiter_at data [] (nat g)" using assms by (simp add: delimiter_at_def)
  have w: "inside_window (nat g) (length ([] :: byte list)) (nat g)"
    by (simp add: inside_window_def)
  from snap_result[OF assms(1), of data "[]"] d w have le: "snap data [] g \<le> int (nat g)"
    by blast
  from snap_result[OF assms(1), of data "[]"] consider "snap data [] g = int (length data)"
    | q where "snap data [] g = int q" "inside_window (nat g) (length ([] :: byte list)) q"
    by blast
  then have "g \<le> snap data [] g"
  proof cases
    case 1
    with assms(2) show ?thesis by simp
  next
    case 2
    from 2(2) have "nat g \<le> q" by (simp add: inside_window_def)
    with 2(1) assms(1) show ?thesis by linarith
  qed
  with le assms(1) show ?thesis by simp
qed

text \<open>
  C3, as the code has it.  For k > 0 and a non-empty delimiter, the interior boundary of
  index i is L only when no occurrence of the delimiter lies wholly inside one of the
  look-ahead windows of 4096 bytes read from the naive guess of i on; and when such an
  occurrence exists, the boundary is the start offset of the first of them, at or after
  the guess.  An occurrence that straddles two windows is not seen.
\<close>

theorem interior_boundary_first_inside_window:
  assumes "0 < k" "0 < i" "i < k" "tok \<noteq> []"
  shows "\<exists>cb. snapped_boundaries fl k tok = Inr cb \<and>
           find_chunk_boundaries fl k tok = Inr (sorted_list_of_set (set cb)) \<and>
           length cb = nat k + 1 \<and>
           (cb ! nat i = int (length (contents fl)) \<longrightarrow>
              \<not> (\<exists>q. delimiter_at (contents fl) tok q \<and>
                       inside_window (nat (naive_guess (length (contents fl)) k i))
                         (length tok) q)) \<and>
           ((\<exists>q. delimiter_at (contents fl) tok q \<and>
                  inside_window (nat (naive_guess (length (contents fl)) k i)) (length tok) q)
            \<longrightarrow>
              (\<exists>b. cb ! nat i = int b \<and>
                    naive_guess (length (contents fl)) k i \<le> int b \<and>
                    delimiter_at (contents fl) tok b \<and>
                    inside_window (nat (naive_guess (length (contents fl)) k i)) (length tok) b \<and>
                    (\<forall>q. delimiter_at (contents fl) tok q \<and>
                         inside_window (nat (naive_guess (length (contents fl)) k i))
                           (length tok) q \<longrightarrow> b \<le> q)))"
proof -
  define data where "data = contents fl"
  define g where "g = naive_guess (length data) k i"
  from interior_boundary[OF assms(1,2,3), of fl tok] obtain cb where
    cb: "snapped_boundaries fl k tok = Inr cb"
      "find_chunk_boundaries fl k tok = Inr (sorted_list_of_set (set cb))"
      "length cb = nat k + 1" "cb ! nat i = snap data tok g"
    unfolding g_def data_def by blast
  from naive_guess_range[OF assms(1), of i "length data"] assms(2,3) have g0: "0 \<le> g"
    by (simp add: g_def)
  note sr = snap_result[OF g0, of data tok]
  have least: "snap data tok g \<le> int q"
    if "delimiter_at data tok q" "inside_window (nat g) (length tok) q" for q
    using sr that by blast
  have notL: "snap data tok g \<noteq> int (length data)"
    if q: "delimiter_at data tok q" "inside_window (nat g) (length tok) q" for q
  proof
    assume "snap data tok g = int (length data)"
    with least[OF q] have "length data \<le> q" by simp
    moreover have "0 < length tok" using assms(4) by simp
    moreover from q(1) have "q + length tok \<le> length data" by (simp add: delimiter_at_def)
    ultimately show False by linarith
  qed
  have one: "cb ! nat i = int (length data) \<longrightarrow>
              \<not> (\<exists>q. delimiter_at data tok q \<and> inside_window (nat g) (length tok) q)"
    using notL cb(4) by auto
  have two: "(\<exists>q. delimiter_at data tok q \<and> inside_window (nat g) (length tok) q) \<longrightarrow>
              (\<exists>b. cb ! nat i = int b \<and> g \<le> int b \<and> delimiter_at data tok b \<and>
                    inside_window (nat g) (length tok) b \<and>
                    (\<forall>q. delimiter_at data tok q \<and> inside_window (nat g) (length tok) q
                           \<longrightarrow> b \<le> q))"
  proof
    assume "\<exists>q. delimiter_at data tok q \<and> inside_window (nat g) (length tok) q"
    then obtain q0 where q0: "delimiter_at data tok q0" "inside_window (nat g) (length tok) q0"
      by blast
    from sr notL[OF q0] obtain b where
      b: "snap data tok g = int b" "delimiter_at data tok b" "inside_window (nat g) (length tok) b"
      by blast
    from b(3) have "nat g \<le> b" by (simp add: inside_window_def)
    with g0 have gb: "g \<le> int b" by linarith
    have "\<forall>q. delimiter_at data tok q \<and> inside_window (nat g) (length tok) q \<longrightarrow> b \<le> q"
      using least b(1) by auto
    with b gb cb(4) show "\<exists>b. cb ! nat i = int b \<and> g \<le> int b \<and> delimiter_at data tok b \<and>
                    inside_window (nat g) (length tok) b \<and>
                    (\<forall>q. delimiter_at data tok q \<and> inside_window (nat g) (length tok) q
                           \<longrightarrow> b \<le> q)"
      by auto
  qed
  from cb(1,2,3) one two show ?thesis unfolding g_def data_def by blast
qed

theorem interior_boundary_first_inside_window_witness:
  "(0::int) < 2 \<and> (0::int) < 1 \<and> (1::int) < 2 \<and> [60,83,69,80,62] \<noteq> ([] :: byte list) \<and>
   snapped_boundaries
     \<lparr>contents = [65,65,65,60,83,69,80,62,66,66,66,60,83,69,80,62,67,67,67], pos = 0\<rparr>
     2 [60,83,69,80,62] = Inr [0, 11, 19] \<and>
   delimiter_at [65,65,65,60,83,69,80,62,66,66,66,60,83,69,80,62,67,67,67]
     [60,83,69,80,62] 11 \<and>
   inside_window (nat (naive_guess 19 2 1)) 5 11"
proof -
  have e: "snapped_boundaries
     \<lparr>contents = [65,65,65,60,83,69,80,62,66,66,66,60,83,69,80,62,67,67,67], pos = 0\<rparr>
     2 [60,83,69,80,62] = Inr [0, 11, 19]"
    by code_simp
  have d: "delimiter_at [65,65,65,60,83,69,80,62,66,66,66,60,83,69,80,62,67,67,67]
     [60,83,69,80,62] 11"
    by code_simp
  have w: "inside_window (nat (naive_guess 19 2 1)) 5 11"
    by (simp add: inside_window_def naive_guess_def mini_chunk_size_def)
  from interior_boundary_first_inside_window[of 2 1 "[60,83,69,80,62]"
      "\<lparr>contents = [65,65,65,60,83,69,80,62,66,66,66,60,83,69,80,62,67,67,67], pos = 0\<rparr>"]
    e d w
  show ?thesis by simp
qed

text \<open>
  C3, as stated, fails.  In a source of 8193 bytes that ends with the delimiter [1, 2] at
  offset 8191, with k = 2, the interior guess is 4096; the first window ends between the
  two bytes of the delimiter, and the interior boundary is snapped to L = 8193 although
  an occurrence exists after the guess.
\<close>

theorem straddling_delimiter_counterexample:
  "snapped_boundaries \<lparr>contents = replicate 8191 0 @ [1, 2], pos = 0\<rparr> 2 [1, 2]
     = Inr [0, 8193, 8193] \<and>
   find_chunk_boundaries \<lparr>contents = replicate 8191 0 @ [1, 2], pos = 0\<rparr> 2 [1, 2]
     = Inr [0, 8193] \<and>
   length (replicate 8191 (0::nat) @ [1, 2]) = 8193 \<and>
   naive_guess (length (replicate 8191 (0::nat) @ [1, 2])) 2 1 = 4096 \<and>
   delimiter_at (replicate 8191 0 @ [1, 2]) [1, 2] 8191"
proof -
  from snapped_boundaries_result[of 2 "\<lparr>contents = replicate 8191 0 @ [1, 2], pos = 0\<rparr>" "[1, 2]"]
  obtain cb where cb: "snapped_boundaries \<lparr>contents = replicate 8191 0 @ [1, 2], pos = 0\<rparr> 2 [1, 2] = Inr cb"
    "length cb = 3" "cb ! 0 = 0" "cb ! 2 = 8193"
    "cb ! 1 = snap (replicate 8191 0 @ [1, 2]) [1, 2] (naive_guess 8193 2 1)"
    by auto
  have g: "naive_guess 8193 2 1 = 4096" by (simp add: naive_guess_def)
  from cb(5) g snap_straddle have "cb ! 1 = 8193" by simp
  with list_of_length_3[OF cb(2)] cb(3,4) have "cb = [0, 8193, 8193]" by simp
  with cb(1) have a: "snapped_boundaries \<lparr>contents = replicate 8191 0 @ [1, 2], pos = 0\<rparr> 2 [1, 2] = Inr [0, 8193, 8193]"
    by simp
  then have b: "find_chunk_boundaries \<lparr>contents = replicate 8191 0 @ [1, 2], pos = 0\<rparr> 2 [1, 2] = Inr [0, 8193]"
    by (simp add: find_chunk_boundaries_def sorted_list_of_set_sort_remdups)
  have c: "delimiter_at (replicate 8191 0 @ [1, 2]) [1, 2] 8191"
    by (simp add: delimiter_at_def)
  from a b c g show ?thesis by simp
qed

text \<open>
  C8, as the code has it.  A desired_num_chunks of 0 fails with \<open>ZeroDivisionError\<close> and
  a negative one with \<open>IndexError\<close>, whatever the byte source and the delimiter, so no
  boundary sequence is returned; with an empty delimiter and a positive count the call
  does not fail: it returns the sorted, deduplicated boundaries, each interior one being
  its naive guess.
\<close>

theorem find_chunk_boundaries_degenerate:
  "(k = 0 \<longrightarrow> find_chunk_boundaries fl k tok = Inl ZeroDivisionError) \<and>
   (k < 0 \<longrightarrow> find_chunk_boundaries fl k tok = Inl IndexError) \<and>
   (0 < k \<longrightarrow>
      (\<exists>cb. snapped_boundaries fl k [] = Inr cb \<and>
            find_chunk_boundaries fl k [] = Inr (sorted_list_of_set (set cb)) \<and>
            length cb = nat k + 1 \<and> cb ! 0 = 0 \<and> cb ! nat k = int (length (contents fl)) \<and>
            (\<forall>i. 0 < i \<and> i < k \<longrightarrow> cb ! nat i = naive_guess (length (contents fl)) k i)))"
proof (intro conjI impI)
  assume "k = 0"
  then show "find_chunk_boundaries fl k tok = Inl ZeroDivisionError"
    by (simp add: find_chunk_boundaries_def snapped_boundaries_def)
next
  assume "k < 0"
  then show "find_chunk_boundaries fl k tok = Inl IndexError"
    by (simp add: find_chunk_boundaries_def snapped_boundaries_def Let_def)
next
  assume k: "0 < k"
  from snapped_boundaries_result[OF k, of fl "[]"] obtain cb where
    cb: "snapped_boundaries fl k [] = Inr cb" "length cb = nat k + 1"
      "cb ! 0 = 0" "cb ! nat k = int (length (contents fl))"
      "\<forall>j. 0 < j \<and> j < nat k \<longrightarrow>
         cb ! j = snap (contents fl) [] (naive_guess (length (contents fl)) k (int j))"
    by blast
  have "cb ! nat i = naive_guess (length (contents fl)) k i" if i: "0 < i" "i < k" for i
  proof -
    from i have "0 < nat i \<and> nat i < nat k" by simp
    with cb(5) i(1) have "cb ! nat i = snap (contents fl) [] (naive_guess (length (contents fl)) k i)"
      by fastforce
    moreover from naive_guess_range[OF k, of i "length (contents fl)"] i
    have "0 \<le> naive_guess (length (contents fl)) k i"
         "naive_guess (length (contents fl)) k i \<le> int (length (contents fl))" by simp_all
    ultimately show ?thesis by (simp add: snap_empty_delimiter)
  qed
  with cb show "\<exists>cb. snapped_boundaries fl k [] = Inr cb \<and>
            find_chunk_boundaries fl k [] = Inr (sorted_list_of_set (set cb)) \<and>
            length cb = nat k + 1 \<and> cb ! 0 = 0 \<and> cb ! nat k = int (length (contents fl)) \<and>
            (\<forall>i. 0 < i \<and> i < k \<longrightarrow> cb ! nat i = naive_guess (length (contents fl)) k i)"
    by (simp add: find_chunk_boundaries_def)
qed

theorem find_chunk_boundaries_degenerate_witness:
  "(0::int) = 0 \<and>
   find_chunk_boundaries \<lparr>contents = [97, 98, 99, 100, 101], pos = 3\<rparr> 0 [120]
     = Inl ZeroDivisionError \<and>
   (- 3::int) < 0 \<and>
   find_chunk_boundaries \<lparr>contents = [97, 98, 99, 100, 101], pos = 3\<rparr> (- 3) [120]
     = Inl IndexError \<and>
   (0::int) < 2 \<and>
   find_chunk_boundaries \<lparr>contents = [97, 98, 99, 100, 101], pos = 3\<rparr> 2 []
     = Inr [0, 2, 5]"
proof -
  have e: "find_chunk_boundaries \<lparr>contents = [97, 98, 99, 100, 101], pos = 3\<rparr> 2 []
     = Inr [0, 2, 5]"
    by code_simp
  from find_chunk_boundaries_degenerate[of 0
         "\<lparr>contents = [97, 98, 99, 100, 101], pos = 3\<rparr>" "[120]"]
       find_chunk_boundaries_degenerate[of "- 3"
         "\<lparr>contents = [97, 98, 99, 100, 101], pos = 3\<rparr>" "[120]"]
       find_chunk_boundaries_degenerate[of 2
         "\<lparr>contents = [97, 98, 99, 100, 101], pos = 3\<rparr>" "[120]"] e
  show ?thesis by simp
qed

text \<open>
  C8, as stated, fails: with the empty delimiter and desired_num_chunks = 2 on a source
  of two bytes the finder raises nothing and returns the boundary sequence [0, 1, 2].
\<close>

theorem empty_delimiter_counterexample:
  "find_chunk_boundaries \<lparr>contents = [97, 98], pos = 0\<rparr> 2 [] = Inr [0, 1, 2]"
  by code_simp

end
